theory Spec2Isabelle
  imports Main
begin

section \<open>IPCClient: the child-side call engine of EPGStation\<close>

text \<open>
  The development embeds \<^verbatim>\<open>src/model/ipc/IPCClient.ts\<close>: the constructor, the
  \<^verbatim>\<open>process.on('message', ...)\<close> handler installed by \<^verbatim>\<open>ipcInit\<close>, and the private
  method \<^verbatim>\<open>send\<close> with the three callbacks it creates (the \<^verbatim>\<open>process.nextTick\<close>
  callback, the \<^verbatim>\<open>listener.once\<close> callback and the \<^verbatim>\<open>setTimeout\<close> callback).

  The class lives in a single-threaded event loop. Every callback runs to completion, so
  the object is a state machine: a state record, and one step per callback invocation.
  What the environment supplies (the clock read by \<^verbatim>\<open>new Date().getTime()\<close>, whether
  \<^verbatim>\<open>process.send\<close> is defined, the inbound message) is carried by the event.
\<close>

subsection \<open>Payloads and messages\<close>

text \<open>Values that cross the process boundary are structured-clone/JSON data.\<close>

datatype json =
    JNull
  | JBool bool
  | JNum int
  | JStr string
  | JArr "json list"
  | JObj "(string \<times> json) list"

text \<open>
  \<^verbatim>\<open>ClientMessageOption\<close> and \<^verbatim>\<open>SendMessage\<close> (declared in \<^verbatim>\<open>IPCMessageDefine\<close>, of which
  only the use is in the source): \<^verbatim>\<open>send\<close> reads \<^verbatim>\<open>option.model\<close>, \<^verbatim>\<open>option.func\<close>,
  \<^verbatim>\<open>option.args\<close> and builds \<^verbatim>\<open>{ id, model, func, args }\<close>. An absent (\<^verbatim>\<open>undefined\<close>)
  field is \<open>None\<close>.
\<close>

record ClientMessageOption =
  model :: string
  func :: string
  args :: "json option"

record SendMessage =
  sm_id :: int
  sm_model :: string
  sm_func :: string
  sm_args :: "json option"

text \<open>
  The handler receives \<^verbatim>\<open>ReplayMessage | ParentMessage\<close> and tells them apart at run time
  by \<^verbatim>\<open>typeof msg.id\<close>, so the inbound message is one object whose fields may each be
  absent: \<^verbatim>\<open>id\<close>, \<^verbatim>\<open>result\<close>, \<^verbatim>\<open>error\<close> of a reply, \<^verbatim>\<open>type\<close>, \<^verbatim>\<open>value\<close> of a parent message.
\<close>

record InboundMessage =
  in_id :: "int option"
  in_result :: "json option"
  in_error :: "string option"
  in_type :: "string option"
  in_value :: "json option"

subsection \<open>Number.prototype.toString(10) on integer identifiers\<close>

text \<open>
  The event name of an identifier is \<^verbatim>\<open>id.toString(10)\<close>. For an integer of magnitude
  below \<open>10\<^sup>2\<^sup>1\<close>, which every millisecond timestamp is, that is its decimal
  numeral, with a leading minus sign when it is negative.
\<close>

definition digit_char :: "nat \<Rightarrow> char" where
  "digit_char d = char_of (48 + d)"

function digits10 :: "nat \<Rightarrow> string" where
  "digits10 n = (if n < 10 then [digit_char n] else digits10 (n div 10) @ [digit_char (n mod 10)])"
  by pat_completeness auto
termination
  by (relation "measure (\<lambda>n. n)") auto

declare digits10.simps [simp del]

definition toString10 :: "int \<Rightarrow> string" where
  "toString10 i = (if i < 0 then CHR ''-'' # digits10 (nat (- i)) else digits10 (nat i))"

subsection \<open>Promises\<close>

text \<open>
  The state of the promise that \<^verbatim>\<open>send\<close> returns. \<^verbatim>\<open>resolve(replay.result)\<close> fulfils it
  with the result (\<open>None\<close> when the field is \<^verbatim>\<open>undefined\<close>), \<^verbatim>\<open>reject(new Error(m))\<close> rejects
  it with an \<^verbatim>\<open>Error\<close> whose message is \<open>m\<close>.
\<close>

datatype promise =
    Pending
  | Fulfilled "json option"
  | Rejected string

text \<open>
  Promises are objects; the store is a list and a call is named by the index of its
  promise. The resolving functions of a JavaScript promise act on a pending promise
  only: calling \<^verbatim>\<open>resolve\<close> or \<^verbatim>\<open>reject\<close> of a settled promise does nothing.
\<close>

definition settle :: "nat \<Rightarrow> promise \<Rightarrow> promise list \<Rightarrow> promise list" where
  "settle c v ps = (if c < length ps \<and> ps ! c = Pending then ps[c := v] else ps)"

subsection \<open>The state of an IPCClient\<close>

record timer =
  t_call :: nat
  t_id :: int
  t_delay :: int

datatype log_entry = LogFatal string | LogError string

datatype collaborator_call = NotifyClient | EncodePush "json option"

text \<open>
  \<^item> \<open>listener\<close>: the \<^verbatim>\<open>events.EventEmitter\<close>; each entry is a one-shot listener, the
    event name it is registered under and the call whose \<^verbatim>\<open>resolve\<close>/\<^verbatim>\<open>reject\<close> its
    closure holds, in registration order;
  \<^item> \<open>promises\<close>: the promises returned by \<^verbatim>\<open>send\<close> so far;
  \<^item> \<open>timers\<close>: the \<^verbatim>\<open>setTimeout\<close> callbacks that have not run yet, each with the call
    and the \<^verbatim>\<open>msg.id\<close> its closure holds;
  \<^item> \<open>ticks\<close>: the \<^verbatim>\<open>process.nextTick\<close> callbacks that have not run yet, each with its
    \<^verbatim>\<open>msg\<close>;
  \<^item> \<open>outbox\<close>: the messages handed to \<^verbatim>\<open>process.send\<close>;
  \<^item> \<open>logged\<close>: what went to \<^verbatim>\<open>log.system\<close>;
  \<^item> \<open>collab\<close>: the calls made to \<^verbatim>\<open>socketIO\<close> and \<^verbatim>\<open>encodeManage\<close>.
\<close>

record client =
  listener :: "(string \<times> nat) list"
  promises :: "promise list"
  timers :: "timer list"
  ticks :: "SendMessage list"
  outbox :: "SendMessage list"
  logged :: "log_entry list"
  collab :: "collaborator_call list"

subsection \<open>EventEmitter operations\<close>

definition once :: "string \<Rightarrow> nat \<Rightarrow> (string \<times> nat) list \<Rightarrow> (string \<times> nat) list" where
  "once ev c ls = ls @ [(ev, c)]"

definition removeAllListeners :: "string \<Rightarrow> (string \<times> nat) list \<Rightarrow> (string \<times> nat) list" where
  "removeAllListeners ev ls = filter (\<lambda>l. fst l \<noteq> ev) ls"

definition listeners_of :: "string \<Rightarrow> (string \<times> nat) list \<Rightarrow> nat list" where
  "listeners_of ev ls = map snd (filter (\<lambda>l. fst l = ev) ls)"

text \<open>
  The body of the listener that \<^verbatim>\<open>send\<close> registers:
  \<^verbatim>\<open>if (typeof replay.error === 'undefined') resolve(replay.result) else reject(new Error(replay.error))\<close>.
\<close>

definition reply_outcome :: "InboundMessage \<Rightarrow> promise" where
  "reply_outcome replay =
     (case in_error replay of
        None \<Rightarrow> Fulfilled (in_result replay)
      | Some e \<Rightarrow> Rejected e)"

text \<open>
  \<^verbatim>\<open>listener.emit(ev, msg)\<close>: every listener registered under \<open>ev\<close> is called with the
  message, in registration order; a listener added with \<^verbatim>\<open>once\<close> is removed as it is
  called. With no listener under \<open>ev\<close> nothing happens (\<^verbatim>\<open>emit\<close> returns \<^verbatim>\<open>false\<close>).
\<close>

definition emit :: "string \<Rightarrow> InboundMessage \<Rightarrow> client \<Rightarrow> client" where
  "emit ev msg s =
     s\<lparr>listener := removeAllListeners ev (listener s),
       promises := fold (\<lambda>c. settle c (reply_outcome msg)) (listeners_of ev (listener s)) (promises s)\<rparr>"

subsection \<open>The constructor, send and the callbacks\<close>

text \<open>
  The constructor logs a fatal message when \<^verbatim>\<open>process.send\<close> is undefined and goes on;
  the emitter starts empty.
\<close>

definition new_client :: "bool \<Rightarrow> client" where
  "new_client send_defined =
     \<lparr>listener = [], promises = [], timers = [], ticks = [], outbox = [],
      logged = (if send_defined then [] else [LogFatal ''bit child process'']),
      collab = []\<rparr>"

text \<open>
  \<^verbatim>\<open>send(option, timeout)\<close>, called when the clock reads \<open>now\<close>. It builds the message with
  \<^verbatim>\<open>id: new Date().getTime()\<close>, queues the \<^verbatim>\<open>nextTick\<close> callback, creates the promise,
  registers the one-shot listener under \<^verbatim>\<open>msg.id.toString(10)\<close> and, when
  \<^verbatim>\<open>timeout > 0\<close>, arms the timer. It returns the new promise (its index) and the state.
\<close>

definition send :: "ClientMessageOption \<Rightarrow> int \<Rightarrow> int \<Rightarrow> client \<Rightarrow> nat \<times> client" where
  "send opt timeout now s =
     (let msg = \<lparr>sm_id = now, sm_model = model opt, sm_func = func opt, sm_args = args opt\<rparr>;
          c = length (promises s)
      in (c, s\<lparr>ticks := ticks s @ [msg],
               promises := promises s @ [Pending],
               listener := once (toString10 (sm_id msg)) c (listener s),
               timers := (if timeout > 0
                          then timers s @ [\<lparr>t_call = c, t_id = sm_id msg, t_delay = timeout\<rparr>]
                          else timers s)\<rparr>))"

text \<open>The default of the parameter: \<^verbatim>\<open>timeout: number = 5000\<close>.\<close>

definition send_default :: "ClientMessageOption \<Rightarrow> int \<Rightarrow> client \<Rightarrow> nat \<times> client" where
  "send_default opt now s = send opt 5000 now s"

text \<open>
  The oldest queued \<^verbatim>\<open>nextTick\<close> callback runs: with \<^verbatim>\<open>process.send\<close> undefined it logs
  an error and returns, otherwise it calls \<^verbatim>\<open>process.send(msg)\<close>.
\<close>

definition nextTick :: "bool \<Rightarrow> client \<Rightarrow> client" where
  "nextTick send_defined s =
     (case ticks s of
        [] \<Rightarrow> s
      | msg # rest \<Rightarrow>
          if \<not> send_defined
          then s\<lparr>ticks := rest, logged := logged s @ [LogError ''process.send is undefined'']\<rparr>
          else s\<lparr>ticks := rest, outbox := outbox s @ [msg]\<rparr>)"

text \<open>The handler that \<^verbatim>\<open>ipcInit\<close> installs on \<^verbatim>\<open>process.on('message', ...)\<close>.\<close>

definition ipcInit :: "InboundMessage \<Rightarrow> client \<Rightarrow> client" where
  "ipcInit msg s =
     (case in_id msg of
        Some i \<Rightarrow> emit (toString10 i) msg s
      | None \<Rightarrow>
          if in_type msg = Some ''notifyClient'' then s\<lparr>collab := collab s @ [NotifyClient]\<rparr>
          else if in_type msg = Some ''pushEncode'' then s\<lparr>collab := collab s @ [EncodePush (in_value msg)]\<rparr>
          else s)"

text \<open>
  The \<^verbatim>\<open>setTimeout\<close> callback of call \<open>c\<close> runs (a timer runs once, and only if it was
  armed): \<^verbatim>\<open>listener.removeAllListeners(msg.id.toString(10)); reject(new Error('IPCTimeout'))\<close>.
\<close>

definition fire :: "nat \<Rightarrow> client \<Rightarrow> client" where
  "fire c s =
     (case find (\<lambda>t. t_call t = c) (timers s) of
        None \<Rightarrow> s
      | Some t \<Rightarrow>
          s\<lparr>timers := filter (\<lambda>t. t_call t \<noteq> c) (timers s),
            listener := removeAllListeners (toString10 (t_id t)) (listener s),
            promises := settle c (Rejected ''IPCTimeout'') (promises s)\<rparr>)"

subsection \<open>The event loop\<close>

text \<open>
  One event per callback invocation. \<open>Disconnect\<close> is the loss of the channel (the
  \<^verbatim>\<open>'disconnect'\<close> event of \<^verbatim>\<open>process\<close>): the class subscribes to \<^verbatim>\<open>'message'\<close> only, so
  no code of it runs.
\<close>

datatype event =
    Send ClientMessageOption int int
  | NextTick bool
  | Message InboundMessage
  | Fire nat
  | Disconnect

fun step :: "client \<Rightarrow> event \<Rightarrow> client" where
  "step s (Send opt timeout now) = snd (send opt timeout now s)"
| "step s (NextTick send_defined) = nextTick send_defined s"
| "step s (Message msg) = ipcInit msg s"
| "step s (Fire c) = fire c s"
| "step s Disconnect = s"

fun run :: "client \<Rightarrow> event list \<Rightarrow> client" where
  "run s [] = s"
| "run s (e # es) = run (step s e) es"

subsection \<open>Observations\<close>

text \<open>The promise of call \<open>c\<close>, when it has been created.\<close>

definition promise_of :: "client \<Rightarrow> nat \<Rightarrow> promise option" where
  "promise_of s c = (if c < length (promises s) then Some (promises s ! c) else None)"

text \<open>
  How often the promise of call \<open>c\<close> is settled along a run: the number of events at
  which its state changes to a settled one.
\<close>

fun settlements :: "nat \<Rightarrow> client \<Rightarrow> event list \<Rightarrow> nat" where
  "settlements c s [] = 0"
| "settlements c s (e # es) =
     (if promise_of (step s e) c \<noteq> promise_of s c \<and> promise_of (step s e) c \<noteq> Some Pending
      then 1 else 0) + settlements c (step s e) es"

text \<open>
  The correlation table is the emitter: its size is the number of registered
  listeners. A call is in flight while its promise is pending.
\<close>

definition table_size :: "client \<Rightarrow> nat" where
  "table_size s = length (listener s)"

definition in_flight :: "client \<Rightarrow> nat" where
  "in_flight s = length (filter (\<lambda>p. p = Pending) (promises s))"

text \<open>Whether a timer of call \<open>c\<close> is armed.\<close>

definition armed :: "nat \<Rightarrow> client \<Rightarrow> bool" where
  "armed c s = (find (\<lambda>t. t_call t = c) (timers s) \<noteq> None)"

text \<open>
  What holds in every state the object reaches: a registered listener belongs to a
  created call whose promise is pending, no call has two listeners, a timer belongs to
  a created call, no call has two timers, and the timer of a call holds the identifier
  that the listener of the call is registered under.
\<close>

definition invariant :: "client \<Rightarrow> bool" where
  "invariant s =
     (list_all (\<lambda>l. snd l < length (promises s) \<and> promises s ! snd l = Pending) (listener s)
      \<and> distinct (map snd (listener s))
      \<and> list_all (\<lambda>t. t_call t < length (promises s)) (timers s)
      \<and> distinct (map t_call (timers s))
      \<and> list_all (\<lambda>t. list_all (\<lambda>l. snd l = t_call t \<longrightarrow> fst l = toString10 (t_id t)) (listener s))
           (timers s))"

text \<open>
  What holds of a call \<open>c\<close> that was made with identifier \<open>now\<close> and without a timer,
  from then on: its promise exists, no timer belongs to it, and a listener of it is
  registered under the event name of \<open>now\<close>.
\<close>

definition no_timer :: "nat \<Rightarrow> int \<Rightarrow> client \<Rightarrow> bool" where
  "no_timer c now s =
     (c < length (promises s)
      \<and> list_all (\<lambda>t. t_call t \<noteq> c) (timers s)
      \<and> list_all (\<lambda>l. snd l = c \<longrightarrow> fst l = toString10 now) (listener s))"

text \<open>
  A run in which every call gets an identifier that no registered listener and no armed
  timer holds at the time of the call.
\<close>

fun fresh_ids :: "client \<Rightarrow> event list \<Rightarrow> bool" where
  "fresh_ids s [] = True"
| "fresh_ids s (e # es) =
     ((case e of
         Send opt timeout now \<Rightarrow>
           toString10 now \<notin> fst ` set (listener s) \<and> now \<notin> t_id ` set (timers s)
       | _ \<Rightarrow> True)
      \<and> fresh_ids (step s e) es)"

text \<open>
  What such runs keep in addition: every pending promise has a listener, and the
  identifier of a timer is the event name of the listener of its own call only.
\<close>

definition all_registered :: "client \<Rightarrow> bool" where
  "all_registered s =
     (list_all (\<lambda>c. promises s ! c = Pending \<longrightarrow> c \<in> snd ` set (listener s))
        [0..<length (promises s)]
      \<and> list_all (\<lambda>t. list_all (\<lambda>l. fst l = toString10 (t_id t) \<longrightarrow> snd l = t_call t) (listener s))
           (timers s))"

subsection \<open>Sample data\<close>

text \<open>
  Requests as \<^verbatim>\<open>reserveation.add(option)\<close> and \<^verbatim>\<open>rule.enable(ruleId)\<close> build them (the
  strings stand for the values of \<^verbatim>\<open>ModelName\<close>, \<^verbatim>\<open>ReserveationFunctions\<close> and
  \<^verbatim>\<open>RuleFuntions\<close>, which \<^verbatim>\<open>send\<close> only copies), and messages of the parent.
\<close>

definition add_option :: ClientMessageOption where
  "add_option = \<lparr>model = ''reserveation'', func = ''add'',
                 args = Some (JObj [(''option'', JObj [(''programId'', JNum 7)])])\<rparr>"

definition enable_option :: ClientMessageOption where
  "enable_option = \<lparr>model = ''rule'', func = ''enable'', args = Some (JObj [(''ruleId'', JNum 42)])\<rparr>"

definition reply_result :: "int \<Rightarrow> json \<Rightarrow> InboundMessage" where
  "reply_result i r = \<lparr>in_id = Some i, in_result = Some r, in_error = None, in_type = None, in_value = None\<rparr>"

definition reply_error :: "int \<Rightarrow> string \<Rightarrow> InboundMessage" where
  "reply_error i e = \<lparr>in_id = Some i, in_result = None, in_error = Some e, in_type = None, in_value = None\<rparr>"

definition reply_void :: "int \<Rightarrow> InboundMessage" where
  "reply_void i = \<lparr>in_id = Some i, in_result = None, in_error = None, in_type = None, in_value = None\<rparr>"

definition push :: "string \<Rightarrow> json option \<Rightarrow> InboundMessage" where
  "push ty v = \<lparr>in_id = None, in_result = None, in_error = None, in_type = Some ty, in_value = v\<rparr>"

section \<open>Identifiers as event names\<close>

text \<open>Distinct identifiers have distinct event names.\<close>

lemma digit_char_inj: "a < 10 \<Longrightarrow> b < 10 \<Longrightarrow> digit_char a = digit_char b \<Longrightarrow> a = b"
proof -
  assume a: "a < 10" and b: "b < 10" and e: "digit_char a = digit_char b"
  from e have "(of_char (char_of (48 + a) :: char) :: nat) = of_char (char_of (48 + b) :: char)"
    by (simp add: digit_char_def)
  with a b show "a = b" by simp
qed

lemma digit_char_not_minus: "d < 10 \<Longrightarrow> digit_char d \<noteq> CHR ''-''"
proof
  assume d: "d < 10" and e: "digit_char d = CHR ''-''"
  from e have "(of_char (char_of (48 + d) :: char) :: nat) = of_char (CHR ''-'')"
    by (simp add: digit_char_def)
  with d show False by simp
qed

lemma digits10_nonempty: "digits10 n \<noteq> []"
  by (subst digits10.simps) simp

lemma digits10_hd: "hd (digits10 n) \<noteq> CHR ''-''"
proof (induction n rule: digits10.induct)
  case (1 n)
  show ?case
  proof (cases "n < 10")
    case True
    then show ?thesis by (subst digits10.simps) (simp add: digit_char_not_minus)
  next
    case False
    with 1 have "hd (digits10 (n div 10)) \<noteq> CHR ''-''" by simp
    with False show ?thesis
      by (subst digits10.simps) (simp add: digits10_nonempty)
  qed
qed

lemma digits10_inj: "digits10 m = digits10 n \<Longrightarrow> m = n"
proof (induction m arbitrary: n rule: digits10.induct)
  case (1 m)
  show ?case
  proof (cases "m < 10")
    case m: True
    show ?thesis
    proof (cases "n < 10")
      case True
      with m 1(2) show ?thesis
        by (simp add: digits10.simps [of m] digits10.simps [of n] digit_char_inj)
    next
      case False
      with m 1(2) digits10_nonempty [of "n div 10"] show ?thesis
        by (auto simp: digits10.simps [of m] digits10.simps [of n])
    qed
  next
    case m: False
    show ?thesis
    proof (cases "n < 10")
      case True
      with m 1(2) digits10_nonempty [of "m div 10"] show ?thesis
        by (auto simp: digits10.simps [of m] digits10.simps [of n])
    next
      case False
      with m 1(2) have e: "digits10 (m div 10) = digits10 (n div 10)"
        and d: "digit_char (m mod 10) = digit_char (n mod 10)"
        by (simp_all add: digits10.simps [of m] digits10.simps [of n])
      from 1(1) [OF m e] have "m div 10 = n div 10" .
      moreover from d have "m mod 10 = n mod 10" by (simp add: digit_char_inj)
      ultimately show ?thesis by (metis div_mult_mod_eq)
    qed
  qed
qed

lemma toString10_inj: "toString10 i = toString10 j \<Longrightarrow> i = j"
proof -
  assume e: "toString10 i = toString10 j"
  have neg: "CHR ''-'' # xs \<noteq> digits10 n" for xs n
    using digits10_hd [of n] by (metis list.sel(1))
  show "i = j"
  proof (cases "i < 0")
    case i: True
    show ?thesis
    proof (cases "j < 0")
      case True
      with i e have "digits10 (nat (- i)) = digits10 (nat (- j))" by (simp add: toString10_def)
      then have "nat (- i) = nat (- j)" by (rule digits10_inj)
      with i True show ?thesis by simp
    next
      case False
      with i e neg show ?thesis by (simp add: toString10_def)
    qed
  next
    case i: False
    show ?thesis
    proof (cases "j < 0")
      case True
      with i e neg [of "digits10 (nat (- j))" "nat i"] show ?thesis by (simp add: toString10_def)
    next
      case False
      with i e have "digits10 (nat i) = digits10 (nat j)" by (simp add: toString10_def)
      then have "nat i = nat j" by (rule digits10_inj)
      with i False show ?thesis by simp
    qed
  qed
qed

section \<open>Settling promises and removing listeners\<close>

lemma settle_length: "length (settle c v ps) = length ps"
  by (simp add: settle_def)

lemma settle_nth:
  "i < length ps \<Longrightarrow> settle c v ps ! i = (if i = c \<and> ps ! i = Pending then v else ps ! i)"
  by (auto simp: settle_def)

lemma fold_settle_length: "length (fold (\<lambda>c. settle c v) hs ps) = length ps"
  by (induction hs arbitrary: ps) (simp_all add: settle_length)

lemma fold_settle_nth:
  "i < length ps \<Longrightarrow>
   fold (\<lambda>c. settle c v) hs ps ! i = (if i \<in> set hs \<and> ps ! i = Pending then v else ps ! i)"
proof (induction hs arbitrary: ps)
  case Nil
  then show ?case by simp
next
  case (Cons h hs)
  then show ?case by (auto simp: settle_length settle_nth)
qed

lemma reply_outcome_settled: "reply_outcome msg \<noteq> Pending"
  by (simp add: reply_outcome_def split: option.splits)

lemma removeAllListeners_absent:
  "listeners_of ev ls = [] \<Longrightarrow> removeAllListeners ev ls = ls"
  by (induction ls) (auto simp: listeners_of_def removeAllListeners_def)

section \<open>Unmatched replies (C8)\<close>

text \<open>
  C8. A reply whose identifier has no listener in the emitter is dropped: the handler
  raises nothing and the whole state, so every registered call and every promise, stays
  as it was.
\<close>

theorem unmatched_reply_dropped:
  "in_id msg = Some i \<Longrightarrow> listeners_of (toString10 i) (listener s) = [] \<Longrightarrow>
   step s (Message msg) = s"
  by (simp add: ipcInit_def emit_def removeAllListeners_absent)

theorem unmatched_reply_dropped_witness:
  "step (run (new_client True) [Send add_option 5000 1001, NextTick True])
        (Message (reply_result 1002 (JStr ''abc123'')))
   = run (new_client True) [Send add_option 5000 1001, NextTick True]"
proof -
  have a: "in_id (reply_result 1002 (JStr ''abc123'')) = Some 1002"
    by (simp add: reply_result_def)
  have b: "listeners_of (toString10 1002)
             (listener (run (new_client True) [Send add_option 5000 1001, NextTick True])) = []"
    by code_simp
  show ?thesis using unmatched_reply_dropped [OF a b] .
qed

section \<open>The invariant of reachable states\<close>

lemma invariant_iff:
  "invariant s \<longleftrightarrow>
     (\<forall>l \<in> set (listener s). snd l < length (promises s) \<and> promises s ! snd l = Pending)
     \<and> distinct (map snd (listener s))
     \<and> (\<forall>t \<in> set (timers s). t_call t < length (promises s))
     \<and> distinct (map t_call (timers s))
     \<and> (\<forall>t \<in> set (timers s). \<forall>l \<in> set (listener s).
           snd l = t_call t \<longrightarrow> fst l = toString10 (t_id t))"
  by (simp add: invariant_def list_all_iff)

lemma invariant_new_client: "invariant (new_client b)"
  by (simp add: invariant_iff new_client_def)

lemma invariant_send: "invariant s \<Longrightarrow> invariant (snd (send opt timeout now s))"
  by (auto simp: invariant_iff send_def once_def Let_def nth_append)

lemma invariant_nextTick: "invariant s \<Longrightarrow> invariant (nextTick b s)"
  by (auto simp: invariant_iff nextTick_def split: list.splits)

lemma set_listeners_of: "set (listeners_of ev ls) = snd ` {l \<in> set ls. fst l = ev}"
  by (auto simp: listeners_of_def)

lemma set_removeAllListeners: "set (removeAllListeners ev ls) = {l \<in> set ls. fst l \<noteq> ev}"
  by (auto simp: removeAllListeners_def)

lemma distinct_removeAllListeners:
  "distinct (map snd ls) \<Longrightarrow> distinct (map snd (removeAllListeners ev ls))"
  by (simp add: removeAllListeners_def distinct_map_filter)

lemma kept_listener_not_called:
  assumes "distinct (map snd ls)" and "l \<in> set ls" and "fst l \<noteq> ev"
  shows "snd l \<notin> set (listeners_of ev ls)"
proof
  assume "snd l \<in> set (listeners_of ev ls)"
  then obtain l' where l': "l' \<in> set ls" "fst l' = ev" "snd l' = snd l"
    by (auto simp: set_listeners_of)
  from assms(1) l'(1) assms(2) l'(3) have "l' = l"
    by (meson distinct_map inj_onD)
  with l'(2) assms(3) show False by simp
qed

lemma invariant_emit: "invariant s \<Longrightarrow> invariant (emit ev msg s)"
  by (auto simp: invariant_iff emit_def set_removeAllListeners distinct_removeAllListeners
        fold_settle_length fold_settle_nth kept_listener_not_called)

lemma invariant_ipcInit: "invariant s \<Longrightarrow> invariant (ipcInit msg s)"
proof -
  assume i: "invariant s"
  have "invariant (s\<lparr>collab := x\<rparr>)" for x
    using i by (simp add: invariant_iff)
  with i show ?thesis
    by (simp add: ipcInit_def invariant_emit split: option.splits)
qed

lemma find_timer: "find (\<lambda>t. t_call t = c) ts = Some t \<Longrightarrow> t \<in> set ts \<and> t_call t = c"
  by (induction ts) (auto split: if_splits)

lemma invariant_fire: "invariant s \<Longrightarrow> invariant (fire c s)"
proof (cases "find (\<lambda>t. t_call t = c) (timers s)")
  case None
  assume "invariant s"
  with None show ?thesis by (simp add: fire_def)
next
  case (Some t)
  assume i: "invariant s"
  from Some have t: "t \<in> set (timers s)" "t_call t = c" by (auto dest: find_timer)
  with i have key: "\<forall>l \<in> set (listener s). snd l = c \<longrightarrow> fst l = toString10 (t_id t)"
    by (auto simp: invariant_iff)
  with i Some show ?thesis
    by (auto simp: invariant_iff fire_def set_removeAllListeners distinct_removeAllListeners
          settle_length settle_nth distinct_map_filter)
qed

lemma invariant_step: "invariant s \<Longrightarrow> invariant (step s e)"
  by (cases e) (simp_all add: invariant_send invariant_nextTick invariant_ipcInit invariant_fire)

lemma invariant_run: "invariant s \<Longrightarrow> invariant (run s es)"
  by (induction es arbitrary: s) (simp_all add: invariant_step)

lemma invariant_reachable: "invariant (run (new_client b) es)"
  by (simp add: invariant_run invariant_new_client)

section \<open>The dispatcher and the outcome of a reply (C7, C3)\<close>

text \<open>
  C7. The handler classifies an inbound message by the presence of \<^verbatim>\<open>id\<close>: with an
  identifier the message goes to the emitter under the identifier's event name and
  reaches no collaborator, whatever else it carries; without one it is dispatched on its
  type tag, \<^verbatim>\<open>notifyClient\<close> to \<^verbatim>\<open>socketIO.notifyClient()\<close> and \<^verbatim>\<open>pushEncode\<close> to
  \<^verbatim>\<open>encodeManage.push(value)\<close>, leaving the emitter and the promises alone; without an
  identifier and with any other tag, or none, the message is ignored and the state is
  unchanged.
\<close>

theorem dispatcher_classification:
  "(in_id msg = Some i \<longrightarrow>
      step s (Message msg) = emit (toString10 i) msg s
      \<and> collab (step s (Message msg)) = collab s)
   \<and> (in_id msg = None \<and> in_type msg = Some ''notifyClient'' \<longrightarrow>
      step s (Message msg) = s\<lparr>collab := collab s @ [NotifyClient]\<rparr>)
   \<and> (in_id msg = None \<and> in_type msg = Some ''pushEncode'' \<longrightarrow>
      step s (Message msg) = s\<lparr>collab := collab s @ [EncodePush (in_value msg)]\<rparr>)
   \<and> (in_id msg = None \<and> in_type msg \<noteq> Some ''notifyClient'' \<and> in_type msg \<noteq> Some ''pushEncode'' \<longrightarrow>
      step s (Message msg) = s)"
  by (simp add: ipcInit_def emit_def)

theorem dispatcher_classification_witness:
  "step (new_client True) (Message (reply_void 5)) = emit (toString10 5) (reply_void 5) (new_client True)
   \<and> step (new_client True) (Message (push ''notifyClient'' None))
       = (new_client True)\<lparr>collab := [NotifyClient]\<rparr>
   \<and> step (new_client True) (Message (push ''pushEncode'' (Some (JNum 3))))
       = (new_client True)\<lparr>collab := [EncodePush (Some (JNum 3))]\<rparr>
   \<and> step (new_client True) (Message (push ''reloadConfig'' None)) = new_client True"
  using dispatcher_classification [of "reply_void 5" 5 "new_client True"]
    dispatcher_classification [of "push ''notifyClient'' None" 0 "new_client True"]
    dispatcher_classification [of "push ''pushEncode'' (Some (JNum 3))" 0 "new_client True"]
    dispatcher_classification [of "push ''reloadConfig'' None" 0 "new_client True"]
  by (simp add: reply_void_def push_def new_client_def)

text \<open>
  The outcome of a reply for a call that still has its listener. In a reachable state,
  let call \<open>c\<close> be registered under the event name of identifier \<open>i\<close>. When a reply with
  identifier \<open>i\<close> is delivered, the promise of \<open>c\<close> is fulfilled with the reply's result if
  the reply has no \<^verbatim>\<open>error\<close> (with \<^verbatim>\<open>undefined\<close>, here \<open>None\<close>, if it has no \<^verbatim>\<open>result\<close>
  either) and rejected with an error carrying the reply's error string otherwise.
\<close>

lemma registered_reply_outcome:
  assumes "s = run (new_client b) es"
    and "(toString10 i, c) \<in> set (listener s)"
    and "in_id msg = Some i"
  shows "promise_of (step s (Message msg)) c =
           Some (case in_error msg of
                   None \<Rightarrow> Fulfilled (in_result msg)
                 | Some e \<Rightarrow> Rejected e)"
proof -
  from assms(1) have "invariant s" by (simp add: invariant_reachable)
  with assms(2) have c: "c < length (promises s)" "promises s ! c = Pending"
    by (auto simp: invariant_iff)
  from assms(2) have "c \<in> set (listeners_of (toString10 i) (listener s))"
    by (force simp: set_listeners_of)
  with c assms(3) show ?thesis
    by (simp add: promise_of_def ipcInit_def emit_def fold_settle_length fold_settle_nth
          reply_outcome_def)
qed

lemma registered_reply_outcome_example:
  "promise_of (step (run (new_client True) [Send add_option 5000 1001, NextTick True])
                 (Message (reply_result 1001 (JStr ''abc123'')))) 0
     = Some (Fulfilled (Some (JStr ''abc123'')))
   \<and> promise_of (step (run (new_client True) [Send add_option 5000 1001, NextTick True])
                 (Message (reply_void 1001))) 0
     = Some (Fulfilled None)
   \<and> promise_of (step (run (new_client True) [Send add_option 5000 1001, NextTick True])
                 (Message (reply_error 1001 ''no such program''))) 0
     = Some (Rejected ''no such program'')"
proof -
  have l: "(toString10 1001, 0) \<in> set (listener (run (new_client True) [Send add_option 5000 1001, NextTick True]))"
    by code_simp
  show ?thesis
    using registered_reply_outcome [OF refl l, of "reply_result 1001 (JStr ''abc123'')"]
      registered_reply_outcome [OF refl l, of "reply_void 1001"]
      registered_reply_outcome [OF refl l, of "reply_error 1001 ''no such program''"]
    by (simp add: reply_result_def reply_void_def reply_error_def)
qed

text \<open>
  C3, at the failing input. Two calls are made in one millisecond, both with the default
  timeout, and both requests go out with identifier 1000. The timer of the first call
  runs: it removes the listeners of both calls and rejects the first promise only. The
  second call is still pending, under identifier 1000, when a reply with identifier 1000
  and a result arrives: its promise is not fulfilled, it stays pending.
\<close>

theorem reply_lost_after_collision:
  "map sm_id (outbox (run (new_client True)
      [Send add_option 5000 1000, Send enable_option 5000 1000, NextTick True, NextTick True,
       Fire 0])) = [1000, 1000]
   \<and> promise_of (run (new_client True)
      [Send add_option 5000 1000, Send enable_option 5000 1000, NextTick True, NextTick True,
       Fire 0]) 1 = Some Pending
   \<and> promise_of (step (run (new_client True)
      [Send add_option 5000 1000, Send enable_option 5000 1000, NextTick True, NextTick True,
       Fire 0]) (Message (reply_result 1000 (JStr ''abc123'')))) 1 = Some Pending"
  by code_simp


section \<open>Calls that share an identifier (C10)\<close>





section \<open>At-most-once delivery (C1)\<close>

lemma step_promises_length: "length (promises s) \<le> length (promises (step s e))"
  by (cases e)
    (simp_all add: send_def Let_def nextTick_def ipcInit_def emit_def fire_def
       fold_settle_length settle_length split: list.splits option.splits)

lemma step_settled:
  assumes "promise_of s c = Some v" and "v \<noteq> Pending"
  shows "promise_of (step s e) c = Some v"
proof -
  from assms have c: "c < length (promises s)" "promises s ! c = v"
    by (simp_all add: promise_of_def split: if_splits)
  with assms(2) show ?thesis
    by (cases e)
      (simp_all add: promise_of_def send_def Let_def nth_append nextTick_def ipcInit_def
         emit_def fire_def fold_settle_length fold_settle_nth settle_length settle_nth
         split: list.splits option.splits)
qed

lemma run_settled:
  "promise_of s c = Some v \<Longrightarrow> v \<noteq> Pending \<Longrightarrow> promise_of (run s es) c = Some v"
  by (induction es arbitrary: s) (simp_all add: step_settled)

lemma settlements_settled:
  "promise_of s c = Some v \<Longrightarrow> v \<noteq> Pending \<Longrightarrow> settlements c s es = 0"
  by (induction es arbitrary: s) (simp_all add: step_settled)

lemma settlements_le_1: "settlements c s es \<le> 1"
proof (induction es arbitrary: s)
  case Nil
  show ?case by simp
next
  case (Cons e es)
  show ?case
  proof (cases "promise_of (step s e) c \<noteq> promise_of s c \<and> promise_of (step s e) c \<noteq> Some Pending")
    case False
    with Cons [of "step s e"] show ?thesis by auto
  next
    case True
    have "promise_of (step s e) c \<noteq> None"
    proof
      assume n: "promise_of (step s e) c = None"
      then have "\<not> c < length (promises (step s e))"
        by (simp add: promise_of_def split: if_splits)
      with step_promises_length [of s e] have "promise_of s c = None"
        by (simp add: promise_of_def)
      with n True show False by simp
    qed
    with True obtain v where "promise_of (step s e) c = Some v" "v \<noteq> Pending"
      by auto
    then have "settlements c (step s e) es = 0" by (rule settlements_settled)
    with True show ?thesis by simp
  qed
qed

text \<open>
  C1. Along any sequence of events, from any state, the promise of a call is settled at
  most once. Once it is settled, with \<open>v\<close>, no later reply and no later timer changes
  it: it is still settled with \<open>v\<close> after any further events, none of which settles it
  again. And of a reply and a timeout the first to run decides: when a reply reaches the
  listener of a pending call, the promise has the outcome of that reply after any further
  events, and when the timer of a pending call runs, the promise is rejected with
  \<^verbatim>\<open>IPCTimeout\<close> after any further events.
\<close>

theorem at_most_once_delivery:
  "settlements c s es \<le> 1
   \<and> (promise_of s c = Some v \<and> v \<noteq> Pending \<longrightarrow>
        promise_of (run s es) c = Some v \<and> settlements c s es = 0)
   \<and> (promise_of s c = Some Pending \<and> in_id msg = Some i
        \<and> c \<in> set (listeners_of (toString10 i) (listener s)) \<longrightarrow>
        promise_of (run (step s (Message msg)) es) c = Some (reply_outcome msg))
   \<and> (promise_of s c = Some Pending \<and> armed c s \<longrightarrow>
        promise_of (run (step s (Fire c)) es) c = Some (Rejected ''IPCTimeout''))"
proof -
  have reply: "promise_of (run (step s (Message msg)) es) c = Some (reply_outcome msg)"
    if "promise_of s c = Some Pending" "in_id msg = Some i"
      "c \<in> set (listeners_of (toString10 i) (listener s))"
  proof -
    from that have "promise_of (step s (Message msg)) c = Some (reply_outcome msg)"
      by (simp add: promise_of_def ipcInit_def emit_def fold_settle_length fold_settle_nth
            split: if_splits)
    then show ?thesis by (rule run_settled) (rule reply_outcome_settled)
  qed
  have timeout: "promise_of (run (step s (Fire c)) es) c = Some (Rejected ''IPCTimeout'')"
    if "promise_of s c = Some Pending" "armed c s"
  proof -
    from that(2) obtain t where "find (\<lambda>t. t_call t = c) (timers s) = Some t"
      by (auto simp: armed_def)
    with that(1) have "promise_of (step s (Fire c)) c = Some (Rejected ''IPCTimeout'')"
      by (simp add: promise_of_def fire_def settle_length settle_nth split: if_splits)
    then show ?thesis by (rule run_settled) simp
  qed
  from reply timeout settlements_le_1 [of c s es] show ?thesis
    by (simp add: run_settled settlements_settled)
qed

theorem at_most_once_delivery_witness:
  "promise_of (run (new_client True)
       [Send add_option 5000 1001, NextTick True, Message (reply_result 1001 (JStr ''abc123'')),
        Fire 0, Message (reply_error 1001 ''late'')]) 0
     = Some (Fulfilled (Some (JStr ''abc123'')))
   \<and> promise_of (run (new_client True)
       [Send add_option 5000 1001, NextTick True, Fire 0,
        Message (reply_result 1001 (JStr ''abc123'')), Fire 0]) 0
     = Some (Rejected ''IPCTimeout'')
   \<and> settlements 0 (new_client True)
       [Send add_option 5000 1001, NextTick True, Message (reply_result 1001 (JStr ''abc123'')),
        Fire 0, Message (reply_error 1001 ''late'')] = 1"
proof -
  let ?s = "run (new_client True) [Send add_option 5000 1001, NextTick True]"
  let ?m = "reply_result 1001 (JStr ''abc123'')"
  have p: "promise_of ?s 0 = Some Pending" by code_simp
  have l: "0 \<in> set (listeners_of (toString10 1001) (listener ?s))" by code_simp
  have a: "armed 0 ?s" by code_simp
  have m: "in_id ?m = Some 1001" "reply_outcome ?m = Fulfilled (Some (JStr ''abc123''))"
    by (simp_all add: reply_result_def reply_outcome_def)
  from at_most_once_delivery [of 0 ?s "[Fire 0, Message (reply_error 1001 ''late'')]" _ ?m 1001] p l m
  have r: "promise_of (run (step ?s (Message ?m)) [Fire 0, Message (reply_error 1001 ''late'')]) 0
             = Some (Fulfilled (Some (JStr ''abc123'')))"
    by simp
  from at_most_once_delivery [of 0 ?s "[Message ?m, Fire 0]" _ ?m 1001] p a
  have t: "promise_of (run (step ?s (Fire 0)) [Message ?m, Fire 0]) 0 = Some (Rejected ''IPCTimeout'')"
    by simp
  have n: "settlements 0 (new_client True)
       [Send add_option 5000 1001, NextTick True, Message ?m,
        Fire 0, Message (reply_error 1001 ''late'')] = 1"
    by code_simp
  from r t n show ?thesis by simp
qed

section \<open>Calls without a timeout (C6)\<close>

lemma no_timer_iff:
  "no_timer c now s \<longleftrightarrow>
     c < length (promises s)
     \<and> (\<forall>t \<in> set (timers s). t_call t \<noteq> c)
     \<and> (\<forall>l \<in> set (listener s). snd l = c \<longrightarrow> fst l = toString10 now)"
  by (simp add: no_timer_def list_all_iff)

lemma no_timer_send:
  assumes "invariant s" and "timeout \<le> 0" and "send opt timeout now s = (c, s')"
  shows "no_timer c now s'" and "promise_of s' c = Some Pending"
proof -
  from assms(1) have l: "\<forall>l \<in> set (listener s). snd l \<noteq> length (promises s)"
    and t: "\<forall>t \<in> set (timers s). t_call t \<noteq> length (promises s)"
    by (auto simp: invariant_iff)
  from assms(2,3) have c: "c = length (promises s)"
    and s': "promises s' = promises s @ [Pending]" "timers s' = timers s"
      "listener s' = listener s @ [(toString10 now, c)]"
    by (auto simp: send_def Let_def once_def)
  from c s' l t show "no_timer c now s'"
    by (auto simp: no_timer_iff)
  from c s' show "promise_of s' c = Some Pending"
    by (simp add: promise_of_def)
qed

lemma no_timer_step: "no_timer c now s \<Longrightarrow> no_timer c now (step s e)"
  by (cases e)
    (auto simp: no_timer_iff send_def Let_def once_def nextTick_def ipcInit_def emit_def
       fire_def set_removeAllListeners fold_settle_length settle_length
       split: list.splits option.splits)

lemma no_timer_run: "no_timer c now s \<Longrightarrow> no_timer c now (run s es)"
  by (induction es arbitrary: s) (simp_all add: no_timer_step)

lemma find_None_iff_call: "find (\<lambda>t. t_call t = c) ts = None \<longleftrightarrow> (\<forall>t \<in> set ts. t_call t \<noteq> c)"
  by (induction ts) auto

lemma no_timer_not_armed: "no_timer c now s \<Longrightarrow> \<not> armed c s"
  by (simp add: no_timer_iff armed_def find_None_iff_call)

lemma no_timer_fire: "no_timer c now s \<Longrightarrow> promise_of (step s (Fire k)) c = promise_of s c"
proof (cases "k = c")
  case True
  assume "no_timer c now s"
  then have "find (\<lambda>t. t_call t = c) (timers s) = None"
    by (simp add: no_timer_iff find_None_iff_call)
  with True show ?thesis by (simp add: fire_def)
next
  case False
  assume "no_timer c now s"
  with False show ?thesis
    by (simp add: no_timer_iff fire_def promise_of_def settle_length settle_nth
          split: option.splits)
qed

lemma no_timer_step_pending:
  assumes "no_timer c now s" and "promise_of s c = Some Pending"
  shows "promise_of (step s e) c = Some Pending
         \<or> (\<exists>msg. e = Message msg \<and> in_id msg = Some now
               \<and> promise_of (step s e) c = Some (reply_outcome msg))"
proof (cases e)
  case (Send opt timeout t)
  with assms show ?thesis
    by (simp add: promise_of_def send_def Let_def nth_append split: if_splits)
next
  case (NextTick b)
  with assms(2) show ?thesis
    by (auto simp: promise_of_def nextTick_def split: list.splits if_splits)
next
  case (Message msg)
  show ?thesis
  proof (cases "in_id msg")
    case None
    with Message assms(2) show ?thesis
      by (auto simp: ipcInit_def promise_of_def split: if_splits)
  next
    case (Some i)
    from assms have c: "c < length (promises s)" "promises s ! c = Pending"
      by (simp_all add: promise_of_def split: if_splits)
    show ?thesis
    proof (cases "c \<in> set (listeners_of (toString10 i) (listener s))")
      case True
      with assms(1) have "toString10 i = toString10 now"
        by (auto simp: no_timer_iff set_listeners_of)
      then have "i = now" by (rule toString10_inj)
      with True Message Some c show ?thesis
        by (simp add: ipcInit_def emit_def promise_of_def fold_settle_length fold_settle_nth)
    next
      case False
      with Message Some c show ?thesis
        by (simp add: ipcInit_def emit_def promise_of_def fold_settle_length fold_settle_nth)
    qed
  qed
next
  case (Fire k)
  with assms no_timer_fire [OF assms(1), of k] show ?thesis by simp
next
  case Disconnect
  with assms show ?thesis by simp
qed

lemma no_timer_run_pending:
  "no_timer c now s \<Longrightarrow> promise_of s c = Some Pending \<Longrightarrow>
   promise_of (run s es) c = Some Pending
   \<or> (\<exists>msg. Message msg \<in> set es \<and> in_id msg = Some now
         \<and> promise_of (run s es) c = Some (reply_outcome msg))"
proof (induction es arbitrary: s)
  case Nil
  then show ?case by simp
next
  case (Cons e es)
  from no_timer_step_pending [OF Cons.prems, of e]
  show ?case
  proof
    assume "promise_of (step s e) c = Some Pending"
    with Cons.IH [of "step s e"] Cons.prems(1) show ?thesis
      by (auto simp: no_timer_step)
  next
    assume "\<exists>msg. e = Message msg \<and> in_id msg = Some now
               \<and> promise_of (step s e) c = Some (reply_outcome msg)"
    then obtain msg where m: "e = Message msg" "in_id msg = Some now"
      "promise_of (step s e) c = Some (reply_outcome msg)" by blast
    from m(3) have "promise_of (run (step s e) es) c = Some (reply_outcome msg)"
      by (rule run_settled) (rule reply_outcome_settled)
    with m show ?thesis by auto
  qed
qed

text \<open>
  C6. In a reachable state, a call made with \<open>timeout \<le> 0\<close> arms no timer, and after any
  further events: no timer of the call is armed; no timer that runs changes the promise
  of the call; and the promise is either still pending or settled with the outcome of a
  reply, among those events, that carries the identifier of the call.
\<close>

theorem unbounded_timeout:
  assumes "s = run (new_client b) es0" and "timeout \<le> 0" and "send opt timeout now s = (c, s')"
  shows "\<not> armed c s'
         \<and> \<not> armed c (run s' es)
         \<and> promise_of (step (run s' es) (Fire k)) c = promise_of (run s' es) c
         \<and> (promise_of (run s' es) c = Some Pending
            \<or> (\<exists>msg. Message msg \<in> set es \<and> in_id msg = Some now
                  \<and> promise_of (run s' es) c = Some (reply_outcome msg)))"
proof -
  from assms(1) have "invariant s" by (simp add: invariant_reachable)
  from no_timer_send [OF this assms(2,3)]
  have n: "no_timer c now s'" and p: "promise_of s' c = Some Pending" .
  from n have n': "no_timer c now (run s' es)" by (rule no_timer_run)
  from n n' no_timer_run_pending [OF n p, of es] no_timer_fire [OF n', of k] show ?thesis
    by (simp add: no_timer_not_armed)
qed

theorem unbounded_timeout_witness:
  "\<not> armed 0 (snd (send add_option 0 1001 (new_client True)))
   \<and> \<not> armed 0 (run (snd (send add_option 0 1001 (new_client True))) [NextTick True, Fire 0])
   \<and> promise_of (step (run (snd (send add_option 0 1001 (new_client True))) [NextTick True, Fire 0])
                  (Fire 0)) 0 = Some Pending
   \<and> promise_of (run (snd (send add_option 0 1001 (new_client True))) [NextTick True, Fire 0]) 0
       = Some Pending"
proof -
  have s: "send add_option 0 1001 (run (new_client True) [])
             = (0, snd (send add_option 0 1001 (new_client True)))"
    by (simp add: send_def new_client_def Let_def)
  have m: "\<not> (\<exists>msg. Message msg \<in> set [NextTick True, Fire 0] \<and> P msg)" for P
    by simp
  from unbounded_timeout [OF refl _ s, of "[NextTick True, Fire 0]" 0] m
  show ?thesis by simp
qed

section \<open>Channel unavailable, channel loss, and colliding identifiers (C2, C5, C4, C9)\<close>

lemma armed_iff: "armed c s \<longleftrightarrow> (\<exists>t \<in> set (timers s). t_call t = c)"
  by (auto simp: armed_def find_None_iff_call)

text \<open>
  C2, as the code has it. In a reachable state with no deferred send waiting, a call is
  made and its deferred send runs while \<^verbatim>\<open>process.send\<close> is undefined: nothing is sent
  and an error is logged; the promise of the call is not rejected, it is pending and its
  listener is registered; and its timer is armed exactly when \<open>timeout > 0\<close>.
\<close>

theorem channel_unavailable_logged:
  assumes "s = run (new_client b) es" and "ticks s = []" and "send opt timeout now s = (c, s')"
  shows "promise_of (step s' (NextTick False)) c = Some Pending
         \<and> (toString10 now, c) \<in> set (listener (step s' (NextTick False)))
         \<and> armed c (step s' (NextTick False)) = (timeout > 0)
         \<and> outbox (step s' (NextTick False)) = outbox s
         \<and> ticks (step s' (NextTick False)) = []
         \<and> logged (step s' (NextTick False)) = logged s @ [LogError ''process.send is undefined'']"
proof -
  from assms(1) have "invariant s" by (simp add: invariant_reachable)
  then have t: "\<forall>t \<in> set (timers s). t_call t \<noteq> length (promises s)"
    by (auto simp: invariant_iff)
  from assms(3) have c: "c = length (promises s)"
    and s': "s' = snd (send opt timeout now s)"
    by (auto simp: send_def Let_def)
  from t show ?thesis
    unfolding s' c
    by (auto simp: assms(2) send_def Let_def once_def nextTick_def promise_of_def armed_iff)
qed

theorem channel_unavailable_logged_witness:
  "promise_of (step (snd (send add_option 5000 1001 (new_client False))) (NextTick False)) 0 = Some Pending
   \<and> armed 0 (step (snd (send add_option 5000 1001 (new_client False))) (NextTick False))
   \<and> outbox (step (snd (send add_option 5000 1001 (new_client False))) (NextTick False)) = []
   \<and> logged (step (snd (send add_option 5000 1001 (new_client False))) (NextTick False))
       = [LogFatal ''bit child process'', LogError ''process.send is undefined'']"
proof -
  have t: "ticks (run (new_client False) []) = []"
    by (simp add: new_client_def)
  have s: "send add_option 5000 1001 (run (new_client False) [])
             = (0, snd (send add_option 5000 1001 (new_client False)))"
    by (simp add: send_def new_client_def Let_def)
  from channel_unavailable_logged [OF refl t s]
  show ?thesis by (simp add: new_client_def)
qed

theorem channel_unavailable_counterexample:
  "promise_of (run (new_client False) [Send add_option 5000 1001, NextTick False]) 0 = Some Pending
   \<and> armed 0 (run (new_client False) [Send add_option 5000 1001, NextTick False])"
  by code_simp

text \<open>
  C5, as the code has it. The loss of the channel runs no code of the class. Along any
  events that are channel losses or deferred sends, from any state, the emitter, the
  promises and the timers stay as they were: no promise is rejected and no listener is
  removed, every pending call stays pending and registered, with its timer armed if it
  had one.
\<close>

theorem channel_loss_no_drain:
  assumes "\<forall>e \<in> set es. e = Disconnect \<or> e = NextTick True \<or> e = NextTick False"
  shows "listener (run s es) = listener s
         \<and> promises (run s es) = promises s
         \<and> timers (run s es) = timers s"
  using assms
proof (induction es arbitrary: s)
  case Nil
  show ?case by simp
next
  case (Cons e es)
  from Cons.prems have e: "e = Disconnect \<or> e = NextTick True \<or> e = NextTick False"
    and es: "\<forall>e \<in> set es. e = Disconnect \<or> e = NextTick True \<or> e = NextTick False"
    by simp_all
  from e have "listener (step s e) = listener s \<and> promises (step s e) = promises s
               \<and> timers (step s e) = timers s"
    by (auto simp: nextTick_def split: list.splits)
  with Cons.IH [OF es, of "step s e"] show ?case by simp
qed

theorem channel_loss_no_drain_witness:
  "listener (run (run (new_client True) [Send add_option 0 1001, Send enable_option 5000 1002])
               [NextTick True, Disconnect, NextTick False])
     = [(''1001'', 0), (''1002'', 1)]
   \<and> promises (run (run (new_client True) [Send add_option 0 1001, Send enable_option 5000 1002])
               [NextTick True, Disconnect, NextTick False])
     = [Pending, Pending]
   \<and> timers (run (run (new_client True) [Send add_option 0 1001, Send enable_option 5000 1002])
               [NextTick True, Disconnect, NextTick False])
     = [\<lparr>t_call = 1, t_id = 1002, t_delay = 5000\<rparr>]"
proof -
  let ?s = "run (new_client True) [Send add_option 0 1001, Send enable_option 5000 1002]"
  have e: "\<forall>e \<in> set [NextTick True, Disconnect, NextTick False].
             e = Disconnect \<or> e = NextTick True \<or> e = NextTick False"
    by simp
  have l: "listener ?s = [(''1001'', 0), (''1002'', 1)]" by code_simp
  have p: "promises ?s = [Pending, Pending]" by code_simp
  have t: "timers ?s = [\<lparr>t_call = 1, t_id = 1002, t_delay = 5000\<rparr>]" by code_simp
  from channel_loss_no_drain [OF e, of ?s] l p t show ?thesis by simp
qed

theorem channel_loss_counterexample:
  "promise_of (run (new_client True) [Send add_option 0 1001, NextTick True, Disconnect]) 0 = Some Pending
   \<and> table_size (run (new_client True) [Send add_option 0 1001, NextTick True, Disconnect]) = 1"
  by code_simp

text \<open>
  C4, at the failing input. Two calls made while the clock reads the same millisecond
  get the same identifier, and both are outstanding: both promises are pending and both
  listeners are registered under the one event name.
\<close>

theorem identifier_collision:
  "map sm_id (ticks (run (new_client True) [Send add_option 5000 1000, Send enable_option 5000 1000]))
     = [1000, 1000]
   \<and> promises (run (new_client True) [Send add_option 5000 1000, Send enable_option 5000 1000])
     = [Pending, Pending]
   \<and> listener (run (new_client True) [Send add_option 5000 1000, Send enable_option 5000 1000])
     = [(''1000'', 0), (''1000'', 1)]"
  by code_simp

text \<open>
  C9, at the failing input. Two calls share an identifier, the first with a timeout of
  100 ms and the second without one. When the timer of the first runs it removes both
  listeners and rejects the first promise only: the table is empty while the second call
  is still in flight.
\<close>

theorem table_smaller_than_in_flight:
  "table_size (run (new_client True)
      [Send add_option 100 1000, Send enable_option 0 1000, NextTick True, NextTick True, Fire 0]) = 0
   \<and> in_flight (run (new_client True)
      [Send add_option 100 1000, Send enable_option 0 1000, NextTick True, NextTick True, Fire 0]) = 1
   \<and> promises (run (new_client True)
      [Send add_option 100 1000, Send enable_option 0 1000, NextTick True, NextTick True, Fire 0])
     = [Rejected ''IPCTimeout'', Pending]"
  by code_simp

section \<open>The size of the table and the calls in flight\<close>

lemma in_flight_card:
  "in_flight s = card {c. c < length (promises s) \<and> promises s ! c = Pending}"
  by (simp add: in_flight_def length_filter_conv_card)

lemma table_size_card: "invariant s \<Longrightarrow> table_size s = card (snd ` set (listener s))"
proof -
  assume "invariant s"
  then have "distinct (map snd (listener s))" by (simp add: invariant_iff)
  then have "card (set (map snd (listener s))) = length (map snd (listener s))"
    by (rule distinct_card)
  then show ?thesis by (simp add: table_size_def)
qed

lemma table_size_le_in_flight: "invariant s \<Longrightarrow> table_size s \<le> in_flight s"
proof -
  assume i: "invariant s"
  then have "snd ` set (listener s) \<subseteq> {c. c < length (promises s) \<and> promises s ! c = Pending}"
    by (auto simp: invariant_iff)
  then have "card (snd ` set (listener s)) \<le> card {c. c < length (promises s) \<and> promises s ! c = Pending}"
    by (intro card_mono) simp_all
  with i show ?thesis by (simp add: table_size_card in_flight_card)
qed

lemma table_empty_when_quiescent:
  "in_flight (run (new_client b) es) = 0 \<Longrightarrow> listener (run (new_client b) es) = []"
  using table_size_le_in_flight [OF invariant_reachable, of b es]
  by (simp add: table_size_def)

lemma all_registered_iff:
  "all_registered s \<longleftrightarrow>
     (\<forall>c < length (promises s). promises s ! c = Pending \<longrightarrow> c \<in> snd ` set (listener s))
     \<and> (\<forall>t \<in> set (timers s). \<forall>l \<in> set (listener s).
           fst l = toString10 (t_id t) \<longrightarrow> snd l = t_call t)"
  by (auto simp: all_registered_def list_all_iff)

lemma all_registered_table_size:
  assumes "invariant s" and "all_registered s"
  shows "table_size s = in_flight s"
proof -
  from assms have "snd ` set (listener s) = {c. c < length (promises s) \<and> promises s ! c = Pending}"
    by (auto simp: invariant_iff all_registered_iff)
  with assms(1) show ?thesis by (simp add: table_size_card in_flight_card)
qed

lemma all_registered_new_client: "all_registered (new_client b)"
  by (simp add: all_registered_iff new_client_def)

lemma all_registered_send:
  assumes "all_registered s"
    and "toString10 now \<notin> fst ` set (listener s)" and "now \<notin> t_id ` set (timers s)"
  shows "all_registered (snd (send opt timeout now s))"
proof -
  from assms(3) have "\<forall>t \<in> set (timers s). toString10 (t_id t) \<noteq> toString10 now"
    by (auto dest: toString10_inj)
  moreover from assms(2) have "\<forall>l \<in> set (listener s). fst l \<noteq> toString10 now"
    by (metis imageI)
  ultimately show ?thesis using assms(1)
    by (auto simp: all_registered_iff send_def Let_def once_def nth_append less_Suc_eq)
qed

lemma all_registered_nextTick: "all_registered s \<Longrightarrow> all_registered (nextTick b s)"
  by (auto simp: all_registered_iff nextTick_def split: list.splits)

lemma all_registered_emit:
  assumes "all_registered s"
  shows "all_registered (emit ev msg s)"
proof -
  have "c \<in> snd ` set (removeAllListeners ev (listener s))"
    if c: "c < length (promises s)"
      and p: "fold (\<lambda>c. settle c (reply_outcome msg)) (listeners_of ev (listener s)) (promises s) ! c = Pending"
    for c
  proof -
    from p c have pend: "promises s ! c = Pending"
      and nc: "c \<notin> set (listeners_of ev (listener s))"
      by (auto simp: fold_settle_nth reply_outcome_settled split: if_splits)
    from assms c pend obtain l where l: "l \<in> set (listener s)" "snd l = c"
      by (auto simp: all_registered_iff)
    with nc have "fst l \<noteq> ev" by (auto simp: set_listeners_of)
    with l show ?thesis by (auto simp: set_removeAllListeners)
  qed
  with assms show ?thesis
    by (auto simp: all_registered_iff emit_def fold_settle_length set_removeAllListeners)
qed

lemma all_registered_ipcInit: "all_registered s \<Longrightarrow> all_registered (ipcInit msg s)"
proof -
  assume a: "all_registered s"
  have "all_registered (s\<lparr>collab := x\<rparr>)" for x
    using a by (simp add: all_registered_iff)
  with a show ?thesis
    by (simp add: ipcInit_def all_registered_emit split: option.splits)
qed

lemma all_registered_fire: "all_registered s \<Longrightarrow> all_registered (fire k s)"
proof (cases "find (\<lambda>t. t_call t = k) (timers s)")
  case None
  assume "all_registered s"
  with None show ?thesis by (simp add: fire_def)
next
  case (Some t)
  assume a: "all_registered s"
  from Some have t: "t \<in> set (timers s)" "t_call t = k" by (auto dest: find_timer)
  have "c \<in> snd ` set (removeAllListeners (toString10 (t_id t)) (listener s))"
    if c: "c < length (promises s)"
      and p: "settle k (Rejected ''IPCTimeout'') (promises s) ! c = Pending"
    for c
  proof -
    from p c have pend: "promises s ! c = Pending" and ck: "c \<noteq> k"
      by (auto simp: settle_nth split: if_splits)
    from a c pend obtain l where l: "l \<in> set (listener s)" "snd l = c"
      by (auto simp: all_registered_iff)
    from a t l ck have "fst l \<noteq> toString10 (t_id t)"
      by (auto simp: all_registered_iff)
    with l show ?thesis by (auto simp: set_removeAllListeners)
  qed
  with a Some show ?thesis
    by (auto simp: all_registered_iff fire_def settle_length set_removeAllListeners)
qed

lemma all_registered_run:
  "all_registered s \<Longrightarrow> fresh_ids s es \<Longrightarrow> all_registered (run s es)"
proof (induction es arbitrary: s)
  case Nil
  then show ?case by simp
next
  case (Cons e es)
  from Cons.prems have "all_registered (step s e)"
    by (cases e)
      (simp_all add: all_registered_send all_registered_nextTick all_registered_ipcInit
         all_registered_fire)
  with Cons.IH [of "step s e"] Cons.prems(2) show ?case by simp
qed

text \<open>
  The size of the table never exceeds the number of calls in flight, so the table is
  empty when no call is outstanding; and the two are equal in every run in which no
  identifier is given out while a listener or a timer still holds it.
\<close>

lemma table_size_reachable:
  "table_size (run (new_client b) es) \<le> in_flight (run (new_client b) es)"
  by (simp add: table_size_le_in_flight invariant_reachable)

lemma table_size_fresh_ids:
  "fresh_ids (new_client b) es \<Longrightarrow>
   table_size (run (new_client b) es) = in_flight (run (new_client b) es)"
  by (simp add: all_registered_table_size invariant_reachable all_registered_run
        all_registered_new_client)

lemma table_size_fresh_ids_example:
  "fresh_ids (new_client True)
     [Send add_option 100 1000, Send enable_option 0 1001, NextTick True, NextTick True,
      Fire 0, Message (reply_void 1001)]"
  by code_simp

text \<open>
  In such a run every pending call still has its listener, so a reply under the event
  name of that listener settles it with the outcome of the reply.
\<close>

lemma pending_registered_fresh_ids:
  assumes "fresh_ids (new_client b) es" and "promise_of (run (new_client b) es) c = Some Pending"
  shows "\<exists>ev. (ev, c) \<in> set (listener (run (new_client b) es))"
proof -
  from assms(1) have "all_registered (run (new_client b) es)"
    by (simp add: all_registered_run all_registered_new_client)
  with assms(2) have "c \<in> snd ` set (listener (run (new_client b) es))"
    by (auto simp: all_registered_iff promise_of_def split: if_splits)
  then obtain l where "l \<in> set (listener (run (new_client b) es))" "snd l = c"
    by auto
  then have "(fst l, c) \<in> set (listener (run (new_client b) es))"
    by (metis prod.collapse)
  then show ?thesis ..
qed

end
